theory Spec2Isabelle
  imports Main
begin

section \<open>Python text primitives\<close>

text \<open>
  A Python \<open>str\<close> is modelled as a list of code points; the model covers the code points
  0..255, one \<open>char\<close> each. \<open>py_isspace\<close> is \<open>str.isspace\<close> on one character, which is also
  what \<open>\s\<close> of the \<open>re\<close> module and \<open>str.rstrip()\<close> use; \<open>py_isword\<close> is \<open>\w\<close>
  (alphanumeric or underscore).
\<close>

definition py_isspace :: "char \<Rightarrow> bool" where
  "py_isspace c =
     (let n = (of_char c :: nat)
      in (9 \<le> n \<and> n \<le> 13) \<or> (28 \<le> n \<and> n \<le> 32) \<or> n = 133 \<or> n = 160)"

definition py_isword :: "char \<Rightarrow> bool" where
  "py_isword c =
     (let n = (of_char c :: nat)
      in (48 \<le> n \<and> n \<le> 57) \<or> (65 \<le> n \<and> n \<le> 90) \<or> n = 95 \<or> (97 \<le> n \<and> n \<le> 122)
         \<or> n = 170 \<or> n = 178 \<or> n = 179 \<or> n = 181 \<or> n = 185 \<or> n = 186
         \<or> (188 \<le> n \<and> n \<le> 190) \<or> (192 \<le> n \<and> n \<le> 214) \<or> (216 \<le> n \<and> n \<le> 246)
         \<or> 248 \<le> n)"

text \<open>\<open>s[a:b]\<close> for indices that are not negative, \<open>s.rstrip()\<close> and \<open>s.count("\n")\<close>.\<close>

definition py_slice :: "string \<Rightarrow> nat \<Rightarrow> nat \<Rightarrow> string" where
  "py_slice s a b = take (b - a) (drop a s)"

definition rstrip :: "string \<Rightarrow> string" where
  "rstrip s = rev (dropWhile py_isspace (rev s))"

definition count_newlines :: "string \<Rightarrow> nat" where
  "count_newlines s = length (filter (\<lambda>c. c = CHR ''\<newline>'') s)"

text \<open>\<open>path.endswith(sfx)\<close>.\<close>

definition endswith :: "string \<Rightarrow> string \<Rightarrow> bool" where
  "endswith s sfx = (length sfx \<le> length s \<and> drop (length s - length sfx) s = sfx)"

section \<open>The regular expressions of the pattern extractor\<close>

text \<open>
  The fragment of Python's \<open>re\<close> that \<open>RGX_MACRO\<close> and \<open>RGX_GLOBAL\<close> use, with the
  flag \<open>re.M\<close>: \<open>^\<close> (\<open>Bol\<close>), \<open>\b\<close> (\<open>WordB\<close>), one character of a class (\<open>Cls\<close>), a
  literal (\<open>Lit\<close>, what \<open>re.escape\<close> gives), the greedy \<open>*\<close> and \<open>+\<close> of a class, the
  optional group \<open>(?:r)?\<close>, concatenation and the one named group. \<open>rx_match r s (p, c)\<close>
  lists the positions at which a match of \<open>r\<close> started at \<open>p\<close> can end, in the order in
  which the backtracking matcher tries them (greedy: longest first), each with the span
  captured by the named group.
\<close>

datatype cset = CSpace | CWord | COneOf string | CNoneOf string | CUnion cset cset

fun in_cset :: "cset \<Rightarrow> char \<Rightarrow> bool" where
  "in_cset CSpace c = py_isspace c"
| "in_cset CWord c = py_isword c"
| "in_cset (COneOf cs) c = (c \<in> set cs)"
| "in_cset (CNoneOf cs) c = (c \<notin> set cs)"
| "in_cset (CUnion a b) c = (in_cset a c \<or> in_cset b c)"

datatype rx = Bol | WordB | Cls cset | Lit string | Star cset | Plus cset
  | Opt rx | Seq rx rx | Grp rx

type_synonym cap = "(nat \<times> nat) option"

definition at_bol :: "string \<Rightarrow> nat \<Rightarrow> bool" where
  "at_bol s p = (p = 0 \<or> (p \<le> length s \<and> s ! (p - 1) = CHR ''\<newline>''))"

definition at_word_boundary :: "string \<Rightarrow> nat \<Rightarrow> bool" where
  "at_word_boundary s p =
     ((0 < p \<and> p \<le> length s \<and> py_isword (s ! (p - 1))) \<noteq> (p < length s \<and> py_isword (s ! p)))"

definition run :: "string \<Rightarrow> cset \<Rightarrow> nat \<Rightarrow> nat" where
  "run s k p = length (takeWhile (in_cset k) (drop p s))"

fun rx_match :: "rx \<Rightarrow> string \<Rightarrow> nat \<times> cap \<Rightarrow> (nat \<times> cap) list" where
  "rx_match Bol s (p, c) = (if at_bol s p then [(p, c)] else [])"
| "rx_match WordB s (p, c) = (if at_word_boundary s p then [(p, c)] else [])"
| "rx_match (Cls k) s (p, c) = (if p < length s \<and> in_cset k (s ! p) then [(Suc p, c)] else [])"
| "rx_match (Lit w) s (p, c) = (if take (length w) (drop p s) = w then [(p + length w, c)] else [])"
| "rx_match (Star k) s (p, c) = map (\<lambda>i. (p + i, c)) (rev [0..<Suc (run s k p)])"
| "rx_match (Plus k) s (p, c) = map (\<lambda>i. (p + i, c)) (rev [1..<Suc (run s k p)])"
| "rx_match (Opt r) s (p, c) = rx_match r s (p, c) @ [(p, c)]"
| "rx_match (Seq a b) s (p, c) = concat (map (rx_match b s) (rx_match a s (p, c)))"
| "rx_match (Grp r) s (p, c) = map (\<lambda>(e, _). (e, Some (p, e))) (rx_match r s (p, c))"

text \<open>The concatenation of a list of patterns.\<close>

fun rx_seq :: "rx list \<Rightarrow> rx" where
  "rx_seq [] = Lit []"
| "rx_seq (r # rs) = foldl Seq r rs"

text \<open>The characters a pattern can consume.\<close>

fun rx_chars :: "rx \<Rightarrow> char \<Rightarrow> bool" where
  "rx_chars Bol x = False"
| "rx_chars WordB x = False"
| "rx_chars (Cls k) x = in_cset k x"
| "rx_chars (Lit w) x = (x \<in> set w)"
| "rx_chars (Star k) x = in_cset k x"
| "rx_chars (Plus k) x = in_cset k x"
| "rx_chars (Opt r) x = rx_chars r x"
| "rx_chars (Seq a b) x = (rx_chars a x \<or> rx_chars b x)"
| "rx_chars (Grp r) x = rx_chars r x"

text \<open>
  \<open>re.search\<close>: the leftmost start position at which the pattern matches, with the first
  end the matcher finds there. \<open>re.finditer\<close>: the matches from left to right, each search
  starting where the last match ended. (The two patterns of the module match no empty
  text; after an empty match the scan here moves one position on.)
\<close>

fun first_match :: "rx \<Rightarrow> string \<Rightarrow> nat list \<Rightarrow> (nat \<times> nat \<times> cap) option" where
  "first_match r s [] = None"
| "first_match r s (p # ps) =
     (case rx_match r s (p, None) of
        [] \<Rightarrow> first_match r s ps
      | (e, c) # _ \<Rightarrow> Some (p, e, c))"

definition re_search_from :: "rx \<Rightarrow> string \<Rightarrow> nat \<Rightarrow> (nat \<times> nat \<times> cap) option" where
  "re_search_from r s pos = first_match r s [pos..<Suc (length s)]"

definition re_search :: "rx \<Rightarrow> string \<Rightarrow> (nat \<times> nat \<times> cap) option" where
  "re_search r s = re_search_from r s 0"

function re_finditer_from :: "rx \<Rightarrow> string \<Rightarrow> nat \<Rightarrow> (nat \<times> nat \<times> cap) list" where
  "re_finditer_from r s pos =
     (if length s < pos then []
      else (case re_search_from r s pos of
              None \<Rightarrow> []
            | Some (st, e, c) \<Rightarrow> (st, e, c) # re_finditer_from r s (max e (Suc pos))))"
  by pat_completeness auto
termination
  by (relation "measure (\<lambda>(r, s, pos). Suc (length s) - pos)") auto

definition re_finditer :: "rx \<Rightarrow> string \<Rightarrow> (nat \<times> nat \<times> cap) list" where
  "re_finditer r s = re_finditer_from r s 0"

text \<open>\<open>m.group("name")\<close>: the text of the named group.\<close>

definition group_name :: "string \<Rightarrow> cap \<Rightarrow> string" where
  "group_name s c = (case c of None \<Rightarrow> [] | Some (a, b) \<Rightarrow> py_slice s a b)"

definition RGX_MACRO :: "string \<Rightarrow> rx" where
  "RGX_MACRO name =
     rx_seq [Bol, Star CSpace, Lit ''#'', Star CSpace, Lit ''define'', Plus CSpace,
             Lit name, WordB, Star (CNoneOf ''\<newline>'')]"

definition RGX_GLOBAL :: rx where
  "RGX_GLOBAL =
     rx_seq [Bol, Star CSpace, Opt (Seq (Lit ''extern'') (Plus CSpace)),
             Plus (CUnion CWord (CUnion CSpace (COneOf ''*''))), WordB,
             Grp (Plus CWord), WordB, Star CSpace, Cls (COneOf ''=;{'')]"

section \<open>Symbol records and the pattern extractor\<close>

text \<open>
  The return schema of the backend: \<open>{"code": ..., "file": ..., "line": ...}\<close>, the fields
  named \<open>rec_code\<close>, \<open>rec_file\<close> and \<open>rec_line\<close> here.
\<close>

record symrec =
  rec_code :: string
  rec_file :: string
  rec_line :: nat

datatype error = CalledProcessError | KeyError | TypeError

text \<open>
  A syntax-tree node as the backend reads it: \<open>type\<close>, \<open>start_point[0]\<close>, \<open>start_byte\<close>,
  \<open>end_byte\<close>, \<open>text.decode()\<close> and \<open>children\<close>. A node together with the chain of its
  ancestors (nearest first) stands for a node object and its \<open>parent\<close> links.
\<close>

datatype node = Node (ntype: string) (start_row: nat) (start_byte: nat) (end_byte: nat)
  (ntext: string) (children: "node list")

type_synonym cursor = "node \<times> node list"

text \<open>
  One resolver instance: the resolved repository path, the capacity of the hot tier, and
  what the world outside the module answers for the fixed commit.
  \<^item> \<open>path_join r p\<close> is \<open>str(Path(r, p))\<close>;
  \<^item> \<open>git_grep_nP kind name\<close> is the list of (file, 1-based line number) fields of the
    output lines of \<open>git grep -nP --full-name -e _grep_pattern(kind, name) commit -- exts\<close>;
  \<^item> \<open>git_grep_l name\<close> is the list of output lines of \<open>git grep -l --full-name name commit -- exts\<close>;
  \<^item> \<open>git_rev_parse path\<close> is \<open>git rev-parse commit:path\<close>, stripped, and
    \<open>git_cat_file sha\<close> is \<open>git cat-file -p sha\<close>; both are run with \<open>check_output\<close>,
    which raises \<open>CalledProcessError\<close> on a non-zero exit;
  \<^item> \<open>c_parser\<close> and \<open>cpp_parser\<close> give the root node of the parse of a source text;
  \<^item> \<open>ts_walk n\<close> is what iterating over \<open>n.walk()\<close> yields, or the error it raises.
\<close>

record env =
  repo :: string
  lru_size :: int
  path_join :: "string \<Rightarrow> string \<Rightarrow> string"
  git_grep_nP :: "string \<Rightarrow> string \<Rightarrow> (string \<times> int) list"
  git_grep_l :: "string \<Rightarrow> string list"
  git_rev_parse :: "string \<Rightarrow> error + string"
  git_cat_file :: "string \<Rightarrow> error + string"
  c_parser :: "string \<Rightarrow> node"
  cpp_parser :: "string \<Rightarrow> node"
  ts_walk :: "node \<Rightarrow> error + node list"

definition build_rec :: "env \<Rightarrow> string \<Rightarrow> string \<Rightarrow> string \<Rightarrow> nat \<Rightarrow> nat \<Rightarrow> symrec" where
  "build_rec E rp path src start fin =
     \<lparr>rec_code = rstrip (py_slice src start fin),
      rec_file = path_join E rp path,
      rec_line = count_newlines (take start src)\<rparr>"

definition extract_macro :: "env \<Rightarrow> string \<Rightarrow> string \<Rightarrow> string \<Rightarrow> symrec option" where
  "extract_macro E src path name =
     (case re_search (RGX_MACRO name) src of
        Some (start, fin, _) \<Rightarrow> Some (build_rec E (repo E) path src start fin)
      | None \<Rightarrow> None)"

definition extract_global :: "env \<Rightarrow> string \<Rightarrow> string \<Rightarrow> string \<Rightarrow> symrec option" where
  "extract_global E src path name =
     (case find (\<lambda>(start, fin, c). group_name src c = name) (re_finditer RGX_GLOBAL src) of
        Some (start, fin, _) \<Rightarrow> Some (build_rec E (repo E) path src start fin)
      | None \<Rightarrow> None)"

section \<open>The structural extractor\<close>

text \<open>
  \<open>_node_at_line\<close>: \<open>queue.pop()\<close> takes the last element, \<open>queue.extend\<close> appends the
  children that start at or before the line.
\<close>

function node_at_line_loop :: "cursor list \<Rightarrow> int \<Rightarrow> cursor option" where
  "node_at_line_loop queue ln =
     (if queue = [] then None
      else (let (n, anc) = last queue; queue' = butlast queue
            in if int (start_row n) = ln then Some (n, anc)
               else node_at_line_loop
                      (queue' @ map (\<lambda>c. (c, n # anc))
                                  (filter (\<lambda>c. int (start_row c) \<le> ln) (children n))) ln))"
  by pat_completeness auto
termination
proof (relation "measure (\<lambda>(queue, ln). sum_list (map (\<lambda>(n, anc). size n) queue))", goal_cases)
  case 1
  show ?case by simp
next
  case (2 queue ln x xa y xb)
  have kids: "sum_list (map size (filter P cs)) \<le> size_list size cs" for P and cs :: "node list"
    by (induction cs) auto
  from 2 have q: "queue = butlast queue @ [(xa, y)]"
    by (metis append_butlast_last_id)
  have "sum_list (map (\<lambda>(n, anc). size n) queue)
        = sum_list (map (\<lambda>(n, anc). size n) (butlast queue)) + size xa"
    by (subst q) simp
  moreover have "sum_list (map size (filter (\<lambda>c. int (start_row c) \<le> ln) (children xa))) < size xa"
    using kids [of "\<lambda>c. int (start_row c) \<le> ln" "children xa"] by (cases xa) simp
  ultimately show ?case using 2
    by (simp add: comp_def)
qed

definition node_at_line :: "node \<Rightarrow> int \<Rightarrow> cursor option" where
  "node_at_line root ln = node_at_line_loop [(root, [])] ln"

text \<open>The tests of the four finders on one node, and the climb \<open>n = n.parent\<close>.\<close>

definition is_function_of :: "node \<Rightarrow> string \<Rightarrow> bool" where
  "is_function_of n ident =
     (ntype n = ''function_definition'' \<and>
      list_ex (\<lambda>child. ntype child = ''function_declarator'' \<and>
                 list_ex (\<lambda>leaf. ntype leaf = ''identifier'' \<and> ntext leaf = ident) (children child))
              (children n))"

definition first_type_identifier_is :: "node \<Rightarrow> string \<Rightarrow> bool" where
  "first_type_identifier_is n ident =
     (case filter (\<lambda>c. ntype c = ''type_identifier'') (children n) of
        [] \<Rightarrow> False
      | c # _ \<Rightarrow> ntext c = ident)"

definition is_struct_of :: "node \<Rightarrow> string \<Rightarrow> bool" where
  "is_struct_of n ident = (ntype n = ''struct_specifier'' \<and> first_type_identifier_is n ident)"

definition is_enum_of :: "node \<Rightarrow> string \<Rightarrow> bool" where
  "is_enum_of n ident = (ntype n = ''enum_specifier'' \<and> first_type_identifier_is n ident)"

fun climb :: "(node \<Rightarrow> bool) \<Rightarrow> node \<Rightarrow> node list \<Rightarrow> cursor option" where
  "climb P n [] = (if P n then Some (n, []) else None)"
| "climb P n (p # anc) = (if P n then Some (n, p # anc) else climb P p anc)"

definition find_function :: "node \<Rightarrow> string \<Rightarrow> int \<Rightarrow> cursor option" where
  "find_function root ident line_hint =
     (case node_at_line root line_hint of
        None \<Rightarrow> None
      | Some (n, anc) \<Rightarrow> climb (\<lambda>m. is_function_of m ident) n anc)"

definition find_struct :: "node \<Rightarrow> string \<Rightarrow> int \<Rightarrow> cursor option" where
  "find_struct root ident line_hint =
     (case node_at_line root line_hint of
        None \<Rightarrow> None
      | Some (n, anc) \<Rightarrow> climb (\<lambda>m. is_struct_of m ident) n anc)"

definition find_enum :: "node \<Rightarrow> string \<Rightarrow> int \<Rightarrow> cursor option" where
  "find_enum root ident line_hint =
     (case node_at_line root line_hint of
        None \<Rightarrow> None
      | Some (n, anc) \<Rightarrow> climb (\<lambda>m. is_enum_of m ident) n anc)"

text \<open>
  \<open>_find_typedef\<close> iterates over \<open>init_decl.walk()\<close> for every child of the first
  \<open>init_declarator_list\<close> child; an error of that iteration leaves the finder.
\<close>

fun typedef_decls :: "env \<Rightarrow> node list \<Rightarrow> string \<Rightarrow> error + bool" where
  "typedef_decls E [] ident = Inr False"
| "typedef_decls E (init_decl # rest) ident =
     (case ts_walk E init_decl of
        Inl e \<Rightarrow> Inl e
      | Inr leaves \<Rightarrow>
          if list_ex (\<lambda>leaf. (ntype leaf = ''type_identifier'' \<or> ntype leaf = ''identifier'')
                              \<and> ntext leaf = ident) leaves
          then Inr True
          else typedef_decls E rest ident)"

definition is_typedef_of :: "env \<Rightarrow> node \<Rightarrow> string \<Rightarrow> error + bool" where
  "is_typedef_of E n ident =
     (if ntype n = ''type_definition'' then
        (case filter (\<lambda>c. ntype c = ''init_declarator_list'') (children n) of
           [] \<Rightarrow> Inr False
         | decl_list # _ \<Rightarrow> typedef_decls E (children decl_list) ident)
      else Inr False)"

fun climb_typedef :: "env \<Rightarrow> string \<Rightarrow> node \<Rightarrow> node list \<Rightarrow> error + cursor option" where
  "climb_typedef E ident n [] =
     (case is_typedef_of E n ident of
        Inl e \<Rightarrow> Inl e
      | Inr b \<Rightarrow> if b then Inr (Some (n, [])) else Inr None)"
| "climb_typedef E ident n (p # anc) =
     (case is_typedef_of E n ident of
        Inl e \<Rightarrow> Inl e
      | Inr b \<Rightarrow> if b then Inr (Some (n, p # anc)) else climb_typedef E ident p anc)"

definition find_typedef :: "env \<Rightarrow> node \<Rightarrow> string \<Rightarrow> int \<Rightarrow> error + cursor option" where
  "find_typedef E root ident line_hint =
     (case node_at_line root line_hint of
        None \<Rightarrow> Inr None
      | Some (n, anc) \<Rightarrow> climb_typedef E ident n anc)"

definition is_cpp_path :: "string \<Rightarrow> bool" where
  "is_cpp_path path =
     list_ex (endswith path) [''.cpp'', ''.cc'', ''.cxx'', ''.hpp'', ''.hh'', ''.hxx'']"

definition extract_symbol ::
  "env \<Rightarrow> string \<Rightarrow> string \<Rightarrow> string \<Rightarrow> string \<Rightarrow> int \<Rightarrow> error + symrec option" where
  "extract_symbol E src path name kind line_hint =
     (if kind = ''macro'' then Inr (extract_macro E src path name)
      else if kind = ''global'' then Inr (extract_global E src path name)
      else
        (let root = (if is_cpp_path path then cpp_parser E src else c_parser E src);
             found =
               (if kind = ''function'' then Inr (find_function root name line_hint)
                else if kind = ''typedef'' then find_typedef E root name line_hint
                else if kind = ''struct'' then Inr (find_struct root name line_hint)
                else if kind = ''enum'' then Inr (find_enum root name line_hint)
                else Inl KeyError)
         in (case found of
               Inl e \<Rightarrow> Inl e
             | Inr None \<Rightarrow> Inr None
             | Inr (Some (n, anc)) \<Rightarrow>
                 Inr (Some \<lparr>rec_code = py_slice src (start_byte n) (end_byte n),
                            rec_file = path_join E (repo E) path,
                            rec_line = start_row n\<rparr>))))"

section \<open>The tiered cache and the resolver\<close>

text \<open>
  The cache key is \<open>(repo, sha, kind, name)\<close>. The warm store is the table \<open>sym\<close> with that
  primary key; a row holds the path, the line and the code, which \<open>_warm_get\<close> returns as
  a record. The hot tier is the memo of \<open>lru_cache(maxsize=lru_size)\<close> around \<open>_warm_get\<close>,
  most recently used first; it memoises every answer of \<open>_warm_get\<close>, also \<open>None\<close>.
\<close>

type_synonym key = "string \<times> string \<times> string \<times> string"

record state =
  warm :: "key \<rightharpoonup> symrec"
  hot :: "(key \<times> symrec option) list"

text \<open>What one lookup does outside its own frame, in the order in which it does it.\<close>

datatype event =
    EvGrepStrict string string
  | EvGrepFallback string
  | EvBlobSha string
  | EvHotGet key
  | EvWarmGet key
  | EvGitShow string
  | EvExtract string string string int
  | EvWarmPut key symrec
  | EvCacheClear

definition KINDS :: "string set" where
  "KINDS = {''function'', ''macro'', ''global'', ''typedef'', ''struct'', ''enum''}"

definition warm_get :: "state \<Rightarrow> key \<Rightarrow> symrec option" where
  "warm_get st k = warm st k"

definition warm_put :: "state \<Rightarrow> key \<Rightarrow> symrec \<Rightarrow> state" where
  "warm_put st k r = st\<lparr>warm := (warm st)(k \<mapsto> r)\<rparr>"

definition cache_clear :: "state \<Rightarrow> state" where
  "cache_clear st = st\<lparr>hot := []\<rparr>"

definition hot_get :: "env \<Rightarrow> state \<Rightarrow> key \<Rightarrow> symrec option \<times> state \<times> event list" where
  "hot_get E st k =
     (if lru_size E \<le> 0 then (warm_get st k, st, [EvHotGet k, EvWarmGet k])
      else (case map_of (hot st) k of
              Some v \<Rightarrow> (v, st\<lparr>hot := (k, v) # filter (\<lambda>e. fst e \<noteq> k) (hot st)\<rparr>, [EvHotGet k])
            | None \<Rightarrow>
                (let v = warm_get st k
                 in (v, st\<lparr>hot := take (nat (lru_size E)) ((k, v) # hot st)\<rparr>,
                     [EvHotGet k, EvWarmGet k]))))"

text \<open>
  \<open>_grep_candidates\<close>: the strict hits with 0-based lines, or, when there is none, every
  file that mentions the name, with the line hint 0. A line \<open>commit:path\<close> of the fallback
  output is cut after its first colon.
\<close>

definition after_colon :: "string \<Rightarrow> string" where
  "after_colon f = tl (dropWhile (\<lambda>c. c \<noteq> CHR '':'') f)"

definition grep_candidates :: "env \<Rightarrow> string \<Rightarrow> string \<Rightarrow> (string \<times> int) list \<times> event list" where
  "grep_candidates E name kind =
     (let out = git_grep_nP E kind name
      in if out \<noteq> [] then (map (\<lambda>(f, n). (f, n - 1)) out, [EvGrepStrict kind name])
         else (map (\<lambda>f. (if CHR '':'' \<in> set f then after_colon f else f, 0)) (git_grep_l E name),
               [EvGrepStrict kind name, EvGrepFallback name]))"

text \<open>
  \<open>_blob_sha\<close> and \<open>_git_show\<close>. The memo of \<open>lru_cache\<close> around \<open>_blob_sha\<close> does not
  change what it returns, the commit being fixed, and keeps no error; the event
  \<open>EvBlobSha\<close> stands for the call of the method.
\<close>

definition blob_sha :: "env \<Rightarrow> string \<Rightarrow> error + string" where
  "blob_sha E path = git_rev_parse E path"

definition git_show :: "env \<Rightarrow> string \<Rightarrow> error + string" where
  "git_show E sha = git_cat_file E sha"

text \<open>
  The body of the loop of \<open>_lookup\<close> for one candidate. \<open>Inl e\<close>: the exception \<open>e\<close> leaves
  the loop; \<open>Inr (Some r)\<close>: \<open>return r\<close>; \<open>Inr None\<close>: the loop goes on to the next candidate.
\<close>

definition try_candidate ::
  "env \<Rightarrow> string \<Rightarrow> string \<Rightarrow> state \<Rightarrow> string \<times> int
     \<Rightarrow> (error + symrec option) \<times> state \<times> event list" where
  "try_candidate E name kind st cand =
     (case cand of (file_path, line_no) \<Rightarrow>
        (case blob_sha E file_path of
           Inl e \<Rightarrow> (Inl e, st, [EvBlobSha file_path])
         | Inr sha \<Rightarrow>
             (case hot_get E st (repo E, sha, kind, name) of (cached_row, st1, ev1) \<Rightarrow>
                (case cached_row of
                   Some row \<Rightarrow> (Inr (Some row), st1, EvBlobSha file_path # ev1)
                 | None \<Rightarrow>
                     (case git_show E sha of
                        Inl e \<Rightarrow> (Inl e, st1, EvBlobSha file_path # ev1 @ [EvGitShow sha])
                      | Inr source \<Rightarrow>
                          (case extract_symbol E source file_path name kind line_no of
                             Inl e \<Rightarrow>
                               (Inl e, st1,
                                EvBlobSha file_path # ev1 @
                                  [EvGitShow sha, EvExtract file_path name kind line_no])
                           | Inr None \<Rightarrow>
                               (Inr None, st1,
                                EvBlobSha file_path # ev1 @
                                  [EvGitShow sha, EvExtract file_path name kind line_no])
                           | Inr (Some r) \<Rightarrow>
                               (Inr (Some r),
                                cache_clear (warm_put st1 (repo E, sha, kind, name) r),
                                EvBlobSha file_path # ev1 @
                                  [EvGitShow sha, EvExtract file_path name kind line_no,
                                   EvWarmPut (repo E, sha, kind, name) r, EvCacheClear])))))))"

fun lookup_loop ::
  "env \<Rightarrow> string \<Rightarrow> string \<Rightarrow> (string \<times> int) list \<Rightarrow> state
     \<Rightarrow> (error + symrec option) \<times> state \<times> event list" where
  "lookup_loop E name kind [] st = (Inr None, st, [])"
| "lookup_loop E name kind (cand # cands) st =
     (case try_candidate E name kind st cand of
        (Inr None, st1, ev1) \<Rightarrow>
          (case lookup_loop E name kind cands st1 of (r, st2, ev2) \<Rightarrow> (r, st2, ev1 @ ev2))
      | (r, st1, ev1) \<Rightarrow> (r, st1, ev1))"

definition lookup ::
  "env \<Rightarrow> state \<Rightarrow> string \<Rightarrow> string \<Rightarrow> (error + symrec option) \<times> state \<times> event list" where
  "lookup E st name kind =
     (if kind \<notin> KINDS then (Inr None, st, [])
      else (case grep_candidates E name kind of (cands, ev) \<Rightarrow>
              (case lookup_loop E name kind cands st of (r, st', tr) \<Rightarrow> (r, st', ev @ tr))))"

text \<open>The public accessors.\<close>

definition get_def :: "env \<Rightarrow> state \<Rightarrow> string \<Rightarrow> (error + symrec option) \<times> state \<times> event list" where
  "get_def E st name = lookup E st name ''function''"

definition get_macro :: "env \<Rightarrow> state \<Rightarrow> string \<Rightarrow> (error + symrec option) \<times> state \<times> event list" where
  "get_macro E st name = lookup E st name ''macro''"

definition get_global :: "env \<Rightarrow> state \<Rightarrow> string \<Rightarrow> (error + symrec option) \<times> state \<times> event list" where
  "get_global E st name = lookup E st name ''global''"

definition get_typedef :: "env \<Rightarrow> state \<Rightarrow> string \<Rightarrow> (error + symrec option) \<times> state \<times> event list" where
  "get_typedef E st name = lookup E st name ''typedef''"

definition get_struct :: "env \<Rightarrow> state \<Rightarrow> string \<Rightarrow> (error + symrec option) \<times> state \<times> event list" where
  "get_struct E st name = lookup E st name ''struct''"

definition get_enum :: "env \<Rightarrow> state \<Rightarrow> string \<Rightarrow> (error + symrec option) \<times> state \<times> event list" where
  "get_enum E st name = lookup E st name ''enum''"


text \<open>
  Classes of events: the locate-and-extract work (searches, hash resolution, object
  reads, extraction), the extraction passes alone, the object reads, and the writes to
  the cache (a row stored, the hot tier cleared).
\<close>

fun is_work :: "event \<Rightarrow> bool" where
  "is_work (EvGrepStrict k n) = True"
| "is_work (EvGrepFallback n) = True"
| "is_work (EvBlobSha f) = True"
| "is_work (EvGitShow h) = True"
| "is_work (EvExtract f n k l) = True"
| "is_work e = False"

fun is_extract :: "event \<Rightarrow> bool" where
  "is_extract (EvExtract f n k l) = True"
| "is_extract e = False"

fun is_git_show :: "event \<Rightarrow> bool" where
  "is_git_show (EvGitShow h) = True"
| "is_git_show e = False"

fun is_write :: "event \<Rightarrow> bool" where
  "is_write (EvWarmPut k r) = True"
| "is_write EvCacheClear = True"
| "is_write e = False"

text \<open>
  The state of a resolver that has just been constructed on an empty store, and the
  invariant of a resolver that is the only writer of its store: every memoised answer
  of the hot tier is the answer the warm store gives.
\<close>

definition init_state :: state where
  "init_state = \<lparr>warm = Map.empty, hot = []\<rparr>"

definition hot_consistent :: "state \<Rightarrow> bool" where
  "hot_consistent st = list_all (\<lambda>(k, v). warm st k = v) (hot st)"

section \<open>Example worlds\<close>

text \<open>
  A repository with no source file: every search is empty and every object read fails.
\<close>

definition empty_tree :: "string \<Rightarrow> node" where
  "empty_tree src = Node ''translation_unit'' 0 0 (length src) src []"

definition bare_env :: env where
  "bare_env =
     \<lparr>repo = ''/r'', lru_size = 4, path_join = (\<lambda>r p. r @ ''/'' @ p),
      git_grep_nP = (\<lambda>kind name. []), git_grep_l = (\<lambda>name. []),
      git_rev_parse = (\<lambda>path. Inl CalledProcessError),
      git_cat_file = (\<lambda>sha. Inl CalledProcessError),
      c_parser = empty_tree, cpp_parser = empty_tree,
      ts_walk = (\<lambda>n. Inl TypeError)\<rparr>"

text \<open>
  A repository whose header \<open>a.h\<close> (blob \<open>b1\<close>) holds \<open>#define X 1\<close>; the path \<open>b.h\<close>
  has the same blob. The strict macro search answers \<open>a.h\<close>, line 1, for every name.
  \<open>renamed_env\<close> is a second commit of the same repository, where the search answers
  \<open>b.h\<close>.
\<close>

definition header_env :: env where
  "header_env =
     bare_env\<lparr>git_grep_nP := (\<lambda>kind name. if kind = ''macro'' then [(''a.h'', 1)] else []),
              git_rev_parse := (\<lambda>path. if path = ''a.h'' \<or> path = ''b.h'' then Inr ''b1''
                                       else Inl CalledProcessError),
              git_cat_file := (\<lambda>sha. if sha = ''b1'' then Inr ''#define X 1''
                                     else Inl CalledProcessError)\<rparr>"

definition renamed_env :: env where
  "renamed_env =
     header_env\<lparr>git_grep_nP := (\<lambda>kind name. if kind = ''macro'' then [(''b.h'', 1)] else [])\<rparr>"

text \<open>
  The same header, but the search also answers, first, a path \<open>gone.h\<close> that the commit
  does not have.
\<close>

definition stale_hit_env :: env where
  "stale_hit_env =
     header_env\<lparr>git_grep_nP :=
                   (\<lambda>kind name. if kind = ''macro'' then [(''gone.h'', 1), (''a.h'', 1)] else []),
                 git_rev_parse := (\<lambda>path. if path = ''a.h'' then Inr ''b1''
                                          else Inl CalledProcessError)\<rparr>"


text \<open>
  A file \<open>src/add.c\<close> that defines \<open>add\<close> with the return type on a line of its own,
  and its syntax tree. The strict function pattern has no hit; the search for the bare
  name answers the file.
\<close>

definition add_src :: string where
  "add_src = ''int\<newline>add(int a, int b)\<newline>{ return a + b; }''"

definition add_fn :: node where
  "add_fn =
     Node ''function_definition'' 0 0 39 add_src
       [Node ''primitive_type'' 0 0 3 ''int'' [],
        Node ''function_declarator'' 1 4 21 ''add(int a, int b)''
          [Node ''identifier'' 1 4 7 ''add'' [],
           Node ''parameter_list'' 1 7 21 ''(int a, int b)'' []],
        Node ''compound_statement'' 2 22 39 ''{ return a + b; }'' []]"

definition add_tree :: node where
  "add_tree = Node ''translation_unit'' 0 0 39 add_src [add_fn]"

definition fallback_env :: env where
  "fallback_env =
     bare_env\<lparr>git_grep_l := (\<lambda>name. if name = ''add'' then [''c0ffee:src/add.c''] else []),
              git_rev_parse := (\<lambda>path. if path = ''src/add.c'' then Inr ''b2''
                                       else Inl CalledProcessError),
              git_cat_file := (\<lambda>sha. if sha = ''b2'' then Inr add_src
                                     else Inl CalledProcessError),
              c_parser := (\<lambda>src. if src = add_src then add_tree else empty_tree src)\<rparr>"

section \<open>Unsupported kinds\<close>

text \<open>
  C8. For every name and every kind string outside the six recognised kinds, lookup
  returns NOT_FOUND at once: the state (warm store and hot tier) is the one it was given
  and nothing was run (no search, no hash resolution, no cache access, no extraction),
  and no error is raised.
\<close>

theorem lookup_unsupported_kind:
  "kind \<notin> KINDS \<Longrightarrow> lookup E st name kind = (Inr None, st, [])"
  by (simp add: lookup_def)

theorem lookup_unsupported_kind_witness:
  "''union'' \<notin> KINDS \<and> lookup bare_env init_state ''foo'' ''union'' = (Inr None, init_state, [])"
proof -
  have h: "''union'' \<notin> KINDS" by (simp add: KINDS_def)
  show ?thesis using h lookup_unsupported_kind [OF h, of bare_env init_state "''foo''"] by simp
qed

section \<open>Facts about the hot tier\<close>

lemma hot_get_warm: "hot_get E st k = (v, st', ev) \<Longrightarrow> warm st' = warm st"
  by (auto simp: hot_get_def Let_def split: if_splits option.splits)

lemma map_of_consistent:
  "list_all (\<lambda>(k, v). w k = v) xs \<Longrightarrow> map_of xs k = Some v \<Longrightarrow> w k = v"
  by (induction xs) (auto split: if_splits)

lemma hot_get_value:
  "hot_consistent st \<Longrightarrow> hot_get E st k = (v, st', ev) \<Longrightarrow> v = warm st k"
  by (auto simp: hot_get_def hot_consistent_def warm_get_def Let_def
           dest: map_of_consistent split: if_splits option.splits)

lemma list_all_take: "list_all P xs \<Longrightarrow> list_all P (take n xs)"
  by (simp add: list_all_iff) (meson in_set_takeD)

lemma hot_get_consistent:
  assumes "hot_consistent st" "hot_get E st k = (v, st', ev)"
  shows "hot_consistent st'"
proof (cases "lru_size E \<le> 0")
  case True
  with assms show ?thesis by (simp add: hot_get_def)
next
  case False
  show ?thesis
  proof (cases "map_of (hot st) k")
    case None
    with False assms(2) have st': "st' = st\<lparr>hot := take (nat (lru_size E)) ((k, warm st k) # hot st)\<rparr>"
      by (auto simp: hot_get_def warm_get_def Let_def)
    have "list_all (\<lambda>(k, v). warm st k = v) ((k, warm st k) # hot st)"
      using assms(1) by (simp add: hot_consistent_def)
    then show ?thesis
      unfolding st' hot_consistent_def by (simp add: list_all_take del: take_Suc_Cons take_Cons_numeral)
  next
    case (Some u)
    with False assms(2) have st': "st' = st\<lparr>hot := (k, u) # filter (\<lambda>e. fst e \<noteq> k) (hot st)\<rparr>"
      by (auto simp: hot_get_def)
    have "warm st k = u"
      using assms(1) Some by (auto simp: hot_consistent_def dest: map_of_consistent)
    moreover have "list_all (\<lambda>(k, v). warm st k = v) (filter (\<lambda>e. fst e \<noteq> k) (hot st))"
      using assms(1) by (simp add: hot_consistent_def list_all_iff)
    ultimately show ?thesis
      unfolding st' hot_consistent_def by simp
  qed
qed

lemma hot_get_events: "hot_get E st k = (v, st', ev) \<Longrightarrow> set ev \<subseteq> {EvHotGet k, EvWarmGet k}"
  by (auto simp: hot_get_def Let_def split: if_splits option.splits)

section \<open>Facts about the candidate loop\<close>

lemma try_candidate_result:
  assumes "hot_consistent st"
  shows "fst (try_candidate E name kind st (f, l)) =
     (case blob_sha E f of
        Inl e \<Rightarrow> Inl e
      | Inr sha \<Rightarrow>
          (case warm st (repo E, sha, kind, name) of
             Some row \<Rightarrow> Inr (Some row)
           | None \<Rightarrow>
               (case git_show E sha of
                  Inl e \<Rightarrow> Inl e
                | Inr src \<Rightarrow> extract_symbol E src f name kind l)))"
proof (cases "blob_sha E f")
  case (Inl e)
  then show ?thesis by (simp add: try_candidate_def)
next
  case (Inr sha)
  obtain v st1 ev1 where hg: "hot_get E st (repo E, sha, kind, name) = (v, st1, ev1)"
    by (cases "hot_get E st (repo E, sha, kind, name)") auto
  have v: "v = warm st (repo E, sha, kind, name)"
    using hot_get_value [OF assms hg] .
  show ?thesis
    using Inr hg v
    by (auto simp: try_candidate_def split: sum.splits option.splits)
qed

lemma try_candidate_consistent:
  assumes "hot_consistent st" "try_candidate E name kind st c = (r, st', ev)"
  shows "hot_consistent st'"
proof (cases c)
  case (Pair f l)
  show ?thesis
  proof (cases "blob_sha E f")
    case (Inl e)
    with assms Pair show ?thesis by (simp add: try_candidate_def)
  next
    case (Inr sha)
    obtain v st1 ev1 where hg: "hot_get E st (repo E, sha, kind, name) = (v, st1, ev1)"
      by (cases "hot_get E st (repo E, sha, kind, name)") auto
    have c1: "hot_consistent st1" using hot_get_consistent [OF assms(1) hg] .
    have "st' = st1 \<or> hot st' = []"
      using assms(2) Pair Inr hg
      by (auto simp: try_candidate_def cache_clear_def split: sum.splits option.splits)
    then show ?thesis using c1 by (auto simp: hot_consistent_def)
  qed
qed

lemma try_candidate_warm:
  assumes "try_candidate E name kind st c = (r, st', ev)"
  shows "warm st' = warm st \<or>
         (\<exists>sha src rc. blob_sha E (fst c) = Inr sha \<and> git_show E sha = Inr src \<and>
            extract_symbol E src (fst c) name kind (snd c) = Inr (Some rc) \<and>
            r = Inr (Some rc) \<and> warm st' = (warm st)((repo E, sha, kind, name) \<mapsto> rc))"
proof (cases c)
  case (Pair f l)
  show ?thesis
  proof (cases "blob_sha E f")
    case (Inl e)
    with assms Pair show ?thesis by (simp add: try_candidate_def)
  next
    case (Inr sha)
    obtain v st1 ev1 where hg: "hot_get E st (repo E, sha, kind, name) = (v, st1, ev1)"
      by (cases "hot_get E st (repo E, sha, kind, name)") auto
    have w1: "warm st1 = warm st" using hot_get_warm [OF hg] .
    show ?thesis
      using assms Pair Inr hg w1
      by (auto simp: try_candidate_def cache_clear_def warm_put_def split: sum.splits option.splits)
  qed
qed

lemma try_candidate_warm_same:
  assumes "try_candidate E name kind st c = (r, st', ev)" "\<And>rc. r \<noteq> Inr (Some rc)"
  shows "warm st' = warm st"
  using try_candidate_warm [OF assms(1)] assms(2) by auto


lemma lookup_loop_append:
  "lookup_loop E name kind (xs @ ys) st =
     (case lookup_loop E name kind xs st of
        (Inr None, st1, ev1) \<Rightarrow>
          (case lookup_loop E name kind ys st1 of (r, st2, ev2) \<Rightarrow> (r, st2, ev1 @ ev2))
      | (r, st1, ev1) \<Rightarrow> (r, st1, ev1))"
proof (induction xs arbitrary: st)
  case Nil
  show ?case by (simp split: prod.splits)
next
  case (Cons x xs)
  show ?case
    by (simp add: Cons.IH split: prod.splits sum.splits option.splits)
qed

lemma lookup_loop_consistent:
  "hot_consistent st \<Longrightarrow> lookup_loop E name kind cs st = (r, st', tr) \<Longrightarrow> hot_consistent st'"
proof (induction cs arbitrary: st r st' tr)
  case Nil
  then show ?case by simp
next
  case (Cons c cs)
  obtain r1 st1 ev1 where t: "try_candidate E name kind st c = (r1, st1, ev1)"
    by (cases "try_candidate E name kind st c") auto
  have c1: "hot_consistent st1" using try_candidate_consistent [OF Cons.prems(1) t] .
  show ?case
  proof (cases "r1 = Inr None")
    case True
    obtain r2 st2 ev2 where l: "lookup_loop E name kind cs st1 = (r2, st2, ev2)"
      by (cases "lookup_loop E name kind cs st1") auto
    with Cons.prems(2) t True have "st' = st2" by simp
    with Cons.IH [OF c1 l] show ?thesis by simp
  next
    case False
    with Cons.prems(2) t have "st' = st1"
      by (auto split: sum.splits option.splits)
    with c1 show ?thesis by simp
  qed
qed

lemma lookup_loop_warm:
  "lookup_loop E name kind cs st = (r, st', tr) \<Longrightarrow>
     warm st' = warm st \<or>
     (\<exists>f l sha src rc. (f, l) \<in> set cs \<and> blob_sha E f = Inr sha \<and> git_show E sha = Inr src \<and>
        extract_symbol E src f name kind l = Inr (Some rc) \<and>
        r = Inr (Some rc) \<and> warm st' = (warm st)((repo E, sha, kind, name) \<mapsto> rc))"
proof (induction cs arbitrary: st r st' tr)
  case Nil
  then show ?case by simp
next
  case (Cons c cs)
  obtain r1 st1 ev1 where t: "try_candidate E name kind st c = (r1, st1, ev1)"
    by (cases "try_candidate E name kind st c") auto
  show ?case
  proof (cases "r1 = Inr None")
    case True
    obtain r2 st2 ev2 where l: "lookup_loop E name kind cs st1 = (r2, st2, ev2)"
      by (cases "lookup_loop E name kind cs st1") auto
    with Cons.prems t True have eq: "st' = st2" "r = r2" by simp_all
    have w1: "warm st1 = warm st"
      using try_candidate_warm_same [OF t] True by simp
    from Cons.IH [OF l] show ?thesis
      unfolding eq w1 by (elim disjE exE conjE) (simp, fastforce)
  next
    case False
    with Cons.prems t have eq: "st' = st1" "r = r1"
      by (auto split: sum.splits option.splits)
    from try_candidate_warm [OF t] show ?thesis
      unfolding eq by (cases c) fastforce
  qed
qed

lemma lookup_loop_warm_same:
  assumes "lookup_loop E name kind cs st = (r, st', tr)" "\<And>rc. r \<noteq> Inr (Some rc)"
  shows "warm st' = warm st"
  using lookup_loop_warm [OF assms(1)] assms(2) by auto

lemma try_candidate_frame:
  assumes "hot_consistent s" "hot_consistent s2"
    and "\<And>sha. warm s2 (repo E, sha, kind, name) = warm s (repo E, sha, kind, name)"
  shows "fst (try_candidate E name kind s2 c) = fst (try_candidate E name kind s c)"
  by (cases c) (simp add: try_candidate_result assms split: sum.splits)



lemma lookup_consistent:
  "hot_consistent st \<Longrightarrow> hot_consistent (fst (snd (lookup E st name kind)))"
proof -
  assume c: "hot_consistent st"
  show ?thesis
  proof (cases "kind \<in> KINDS")
    case False
    with c show ?thesis by (simp add: lookup_def)
  next
    case True
    obtain cands ev where g: "grep_candidates E name kind = (cands, ev)"
      by (cases "grep_candidates E name kind") auto
    obtain r st' tr where l: "lookup_loop E name kind cands st = (r, st', tr)"
      by (cases "lookup_loop E name kind cands st") auto
    from lookup_loop_consistent [OF c l] True g l show ?thesis
      by (simp add: lookup_def)
  qed
qed

lemma lookup_warm:
  "lookup E st name kind = (r, st', tr) \<Longrightarrow>
     warm st' = warm st \<or>
     (\<exists>f l sha src rc. (f, l) \<in> set (fst (grep_candidates E name kind)) \<and>
        blob_sha E f = Inr sha \<and> git_show E sha = Inr src \<and>
        extract_symbol E src f name kind l = Inr (Some rc) \<and>
        r = Inr (Some rc) \<and> warm st' = (warm st)((repo E, sha, kind, name) \<mapsto> rc))"
proof (cases "kind \<in> KINDS")
  case False
  assume "lookup E st name kind = (r, st', tr)"
  with False show ?thesis by (simp add: lookup_def)
next
  case True
  assume a: "lookup E st name kind = (r, st', tr)"
  obtain cands ev where g: "grep_candidates E name kind = (cands, ev)"
    by (cases "grep_candidates E name kind") auto
  obtain r2 st2 tr2 where l: "lookup_loop E name kind cands st = (r2, st2, tr2)"
    by (cases "lookup_loop E name kind cands st") auto
  from a True g l have eq: "r = r2" "st' = st2" by (simp_all add: lookup_def)
  from lookup_loop_warm [OF l] show ?thesis unfolding eq g by simp
qed




lemma hot_get_no_work: "hot_get E st k = (v, st', ev) \<Longrightarrow> filter is_work ev = []"
  by (auto simp: hot_get_def Let_def split: if_splits option.splits)

lemma hot_get_no_write: "hot_get E st k = (v, st', ev) \<Longrightarrow> filter is_write ev = []"
  by (auto simp: hot_get_def Let_def split: if_splits option.splits)

lemma hot_get_no_extract:
  "hot_get E st k = (v, st', ev) \<Longrightarrow> filter is_extract ev = [] \<and> filter is_git_show ev = []"
  by (auto simp: hot_get_def Let_def split: if_splits option.splits)

lemma try_candidate_none_work:
  assumes "try_candidate E name kind st c = (Inr None, st', ev)"
  shows "\<exists>sha. blob_sha E (fst c) = Inr sha \<and>
           filter is_work ev = [EvBlobSha (fst c), EvGitShow sha, EvExtract (fst c) name kind (snd c)]"
proof (cases c)
  case (Pair f l)
  show ?thesis
  proof (cases "blob_sha E f")
    case (Inl e)
    with assms Pair show ?thesis by (simp add: try_candidate_def)
  next
    case (Inr sha)
    obtain v st1 ev1 where hg: "hot_get E st (repo E, sha, kind, name) = (v, st1, ev1)"
      by (cases "hot_get E st (repo E, sha, kind, name)") auto
    have nw: "filter is_work ev1 = []" using hot_get_no_work [OF hg] .
    show ?thesis
      using assms Pair Inr hg nw
      by (auto simp: try_candidate_def split: sum.splits option.splits)
  qed
qed

lemma try_candidate_no_write:
  assumes "try_candidate E name kind st c = (r, st', ev)" "\<And>rc. r \<noteq> Inr (Some rc)"
  shows "filter is_write ev = []"
proof (cases c)
  case (Pair f l)
  show ?thesis
  proof (cases "blob_sha E f")
    case (Inl e)
    with assms Pair show ?thesis by (auto simp: try_candidate_def)
  next
    case (Inr sha)
    obtain v st1 ev1 where hg: "hot_get E st (repo E, sha, kind, name) = (v, st1, ev1)"
      by (cases "hot_get E st (repo E, sha, kind, name)") auto
    have nw: "filter is_write ev1 = []" using hot_get_no_write [OF hg] .
    have r: "r = Inr None \<or> (\<exists>e. r = Inl e)"
    proof (cases r)
      case (Inl e)
      then show ?thesis by simp
    next
      case (Inr b)
      with assms(2) [of "the b"] show ?thesis by (cases b) auto
    qed
    then show ?thesis
    proof
      assume "r = Inr None"
      with assms(1) Pair Inr hg nw show ?thesis
        by (auto simp: try_candidate_def split: sum.splits option.splits)
    next
      assume "\<exists>e. r = Inl e"
      then obtain e where "r = Inl e" by auto
      with assms(1) Pair Inr hg nw show ?thesis
        by (auto simp: try_candidate_def split: sum.splits option.splits)
    qed
  qed
qed

lemma lookup_loop_no_write:
  "lookup_loop E name kind cs st = (r, st', tr) \<Longrightarrow> (\<And>rc. r \<noteq> Inr (Some rc)) \<Longrightarrow>
     filter is_write tr = []"
proof (induction cs arbitrary: st st' tr)
  case Nil
  then show ?case by simp
next
  case (Cons c cs)
  obtain r1 st1 ev1 where t: "try_candidate E name kind st c = (r1, st1, ev1)"
    by (cases "try_candidate E name kind st c") auto
  show ?case
  proof (cases "r1 = Inr None")
    case True
    obtain r2 st2 ev2 where l: "lookup_loop E name kind cs st1 = (r2, st2, ev2)"
      by (cases "lookup_loop E name kind cs st1") auto
    with Cons.prems(1) t True have eq: "r = r2" "tr = ev1 @ ev2" by simp_all
    have "filter is_write ev1 = []" using try_candidate_no_write [OF t] True by simp
    moreover have "filter is_write ev2 = []"
      using Cons.IH [OF l [unfolded eq(1) [symmetric]]] Cons.prems(2) by simp
    ultimately show ?thesis using eq by simp
  next
    case False
    with Cons.prems(1) t have eq: "r = r1" "tr = ev1"
      by (auto split: sum.splits option.splits)
    show ?thesis using try_candidate_no_write [OF t] Cons.prems(2) eq by simp
  qed
qed

lemma lookup_loop_none_again:
  assumes "hot_consistent st" "lookup_loop E name kind cs st = (Inr None, st', tr)"
    and "hot_consistent s2" "warm s2 = warm st"
  shows "\<exists>s2' tr'. lookup_loop E name kind cs s2 = (Inr None, s2', tr') \<and>
           filter is_work tr' = filter is_work tr"
  using assms
proof (induction cs arbitrary: st st' s2 tr)
  case Nil
  then show ?case by simp
next
  case (Cons c cs)
  obtain r1 st1 ev1 where t: "try_candidate E name kind st c = (r1, st1, ev1)"
    by (cases "try_candidate E name kind st c") auto
  obtain r1' s1' ev1' where t': "try_candidate E name kind s2 c = (r1', s1', ev1')"
    by (cases "try_candidate E name kind s2 c") auto
  have r1: "r1 = Inr None"
    using Cons.prems(2) t by (auto split: sum.splits option.splits prod.splits)
  obtain r2 st2 ev2 where l: "lookup_loop E name kind cs st1 = (r2, st2, ev2)"
    by (cases "lookup_loop E name kind cs st1") auto
  with Cons.prems(2) t r1 have eq: "r2 = Inr None" "st' = st2" "tr = ev1 @ ev2" by simp_all
  have "r1' = r1"
    using try_candidate_frame [OF Cons.prems(1,3), of E kind name c] Cons.prems(4) t t' by simp
  with r1 have r1': "r1' = Inr None" by simp
  have w: "warm st1 = warm st" "warm s1' = warm s2"
    using try_candidate_warm_same [OF t] try_candidate_warm_same [OF t'] r1 r1' by simp_all
  have c: "hot_consistent st1" "hot_consistent s1'"
    using try_candidate_consistent [OF Cons.prems(1) t]
      try_candidate_consistent [OF Cons.prems(3) t'] by simp_all
  have ws: "warm s1' = warm st1" using w Cons.prems(4) by simp
  obtain s2' tr' where l': "lookup_loop E name kind cs s1' = (Inr None, s2', tr')"
    and wk: "filter is_work tr' = filter is_work ev2"
    using Cons.IH [OF c(1) l [unfolded eq(1)] c(2) ws] by auto
  have "filter is_work ev1' = filter is_work ev1"
    using try_candidate_none_work [OF t [unfolded r1]] try_candidate_none_work [OF t' [unfolded r1']]
    by auto
  then show ?case using t' r1' l' wk eq by simp
qed

section \<open>Determinism\<close>




section \<open>Negative outcomes\<close>

text \<open>
  C9. Negative outcomes are never persisted. A lookup that returns NOT_FOUND leaves the
  warm store as it was and neither stores a row nor clears the hot tier. Whenever a
  lookup changes the warm store, the change is one row, stored under the key of a
  candidate file and holding the record that the extraction on that file's content has
  just produced, which is also the record returned. And a repeated lookup of a missing
  symbol (by a resolver whose hot tier agrees with its warm store) returns NOT_FOUND
  again after the same searches, hash resolutions, object reads and extractions.
\<close>

theorem negative_outcomes_not_persisted:
  assumes "lookup E st name kind = (r, st', tr)"
  shows "(r = Inr None \<longrightarrow> warm st' = warm st \<and> filter is_write tr = [])
       \<and> (warm st' = warm st \<or>
           (\<exists>f l sha src rc. (f, l) \<in> set (fst (grep_candidates E name kind)) \<and>
              blob_sha E f = Inr sha \<and> git_show E sha = Inr src \<and>
              extract_symbol E src f name kind l = Inr (Some rc) \<and>
              r = Inr (Some rc) \<and> warm st' = (warm st)((repo E, sha, kind, name) \<mapsto> rc)))
       \<and> (r = Inr None \<and> hot_consistent st \<longrightarrow>
           (\<exists>st'' tr'. lookup E st' name kind = (Inr None, st'', tr') \<and>
              filter is_work tr' = filter is_work tr))"
proof (intro conjI impI)
  show "warm st' = warm st \<or>
           (\<exists>f l sha src rc. (f, l) \<in> set (fst (grep_candidates E name kind)) \<and>
              blob_sha E f = Inr sha \<and> git_show E sha = Inr src \<and>
              extract_symbol E src f name kind l = Inr (Some rc) \<and>
              r = Inr (Some rc) \<and> warm st' = (warm st)((repo E, sha, kind, name) \<mapsto> rc))"
    using lookup_warm [OF assms] .
next
  assume n: "r = Inr None"
  show "warm st' = warm st" using lookup_warm [OF assms] n by auto
  show "filter is_write tr = []"
  proof (cases "kind \<in> KINDS")
    case False
    with assms show ?thesis by (simp add: lookup_def)
  next
    case True
    obtain cands ev where g: "grep_candidates E name kind = (cands, ev)"
      by (cases "grep_candidates E name kind") auto
    obtain r2 st2 tr2 where l: "lookup_loop E name kind cands st = (r2, st2, tr2)"
      by (cases "lookup_loop E name kind cands st") auto
    from assms True g l have eq: "r = r2" "tr = ev @ tr2" by (simp_all add: lookup_def)
    have "filter is_write ev = []"
      using g by (auto simp: grep_candidates_def Let_def split: if_splits)
    moreover have r2: "r2 = Inr None" using eq(1) n by simp
    have "r2 \<noteq> Inr (Some rc)" for rc unfolding r2 by simp
    then have "filter is_write tr2 = []"
      by (rule lookup_loop_no_write [OF l])
    ultimately show ?thesis using eq by simp
  qed
next
  assume a: "r = Inr None \<and> hot_consistent st"
  show "\<exists>st'' tr'. lookup E st' name kind = (Inr None, st'', tr') \<and>
              filter is_work tr' = filter is_work tr"
  proof (cases "kind \<in> KINDS")
    case False
    with assms show ?thesis by (auto simp: lookup_def)
  next
    case True
    obtain cands ev where g: "grep_candidates E name kind = (cands, ev)"
      by (cases "grep_candidates E name kind") auto
    obtain r2 st2 tr2 where l: "lookup_loop E name kind cands st = (r2, st2, tr2)"
      by (cases "lookup_loop E name kind cands st") auto
    from assms True g l have eq: "r = r2" "st' = st2" "tr = ev @ tr2"
      by (simp_all add: lookup_def)
    have l': "lookup_loop E name kind cands st = (Inr None, st', tr2)"
      using l eq a by simp
    have c': "hot_consistent st'" using lookup_loop_consistent [OF _ l'] a by simp
    have w': "warm st' = warm st" using lookup_loop_warm_same [OF l'] by simp
    obtain s3 tr3 where l3: "lookup_loop E name kind cands st' = (Inr None, s3, tr3)"
      and wk: "filter is_work tr3 = filter is_work tr2"
      using lookup_loop_none_again [OF _ l' c' w'] a by auto
    show ?thesis using True g l3 wk eq by (simp add: lookup_def)
  qed
qed

theorem negative_outcomes_not_persisted_witness:
  "fst (lookup header_env init_state ''Z'' ''macro'') = Inr None \<and>
   hot_consistent init_state \<and>
   warm (fst (snd (lookup header_env init_state ''Z'' ''macro''))) = warm init_state \<and>
   filter is_write (snd (snd (lookup header_env init_state ''Z'' ''macro''))) = [] \<and>
   filter is_work
     (snd (snd (lookup header_env (fst (snd (lookup header_env init_state ''Z'' ''macro'')))
                  ''Z'' ''macro'')))
     = [EvGrepStrict ''macro'' ''Z'', EvBlobSha ''a.h'', EvGitShow ''b1'',
        EvExtract ''a.h'' ''Z'' ''macro'' 0]"
proof -
  have r: "fst (lookup header_env init_state ''Z'' ''macro'') = Inr None"
    by code_simp
  have h: "hot_consistent init_state"
    by (simp add: hot_consistent_def init_state_def)
  have tr: "filter is_work (snd (snd (lookup header_env init_state ''Z'' ''macro'')))
     = [EvGrepStrict ''macro'' ''Z'', EvBlobSha ''a.h'', EvGitShow ''b1'',
        EvExtract ''a.h'' ''Z'' ''macro'' 0]"
    by code_simp
  have p: "lookup header_env init_state ''Z'' ''macro''
     = (Inr None, fst (snd (lookup header_env init_state ''Z'' ''macro'')),
        snd (snd (lookup header_env init_state ''Z'' ''macro'')))"
    using r by (metis prod.collapse)
  show ?thesis
    using negative_outcomes_not_persisted [OF p] r h tr by auto
qed

section \<open>Facts about one candidate\<close>

lemma grep_candidates_events:
  "filter is_write (snd (grep_candidates E name kind)) = [] \<and>
   filter is_extract (snd (grep_candidates E name kind)) = [] \<and>
   filter is_git_show (snd (grep_candidates E name kind)) = []"
  by (simp add: grep_candidates_def Let_def)

lemma lookup_unfold:
  "kind \<in> KINDS \<Longrightarrow>
   lookup E st name kind =
     (fst (lookup_loop E name kind (fst (grep_candidates E name kind)) st),
      fst (snd (lookup_loop E name kind (fst (grep_candidates E name kind)) st)),
      snd (grep_candidates E name kind) @
        snd (snd (lookup_loop E name kind (fst (grep_candidates E name kind)) st)))"
  by (simp add: lookup_def split: prod.splits)

lemma try_candidate_fails:
  assumes "blob_sha E f = Inl e \<or>
           (\<exists>sha. blob_sha E f = Inr sha \<and>
              fst (hot_get E st (repo E, sha, kind, name)) = None \<and> git_show E sha = Inl e)"
  shows "\<exists>st' ev. try_candidate E name kind st (f, l) = (Inl e, st', ev) \<and>
           filter is_work ev =
             EvBlobSha f # (case blob_sha E f of Inl _ \<Rightarrow> [] | Inr sha \<Rightarrow> [EvGitShow sha])"
  using assms
proof
  assume "blob_sha E f = Inl e"
  then show ?thesis by (simp add: try_candidate_def)
next
  assume "\<exists>sha. blob_sha E f = Inr sha \<and>
              fst (hot_get E st (repo E, sha, kind, name)) = None \<and> git_show E sha = Inl e"
  then obtain sha where sha: "blob_sha E f = Inr sha"
    and hn: "fst (hot_get E st (repo E, sha, kind, name)) = None"
    and gs: "git_show E sha = Inl e" by auto
  obtain st1 ev1 where hg: "hot_get E st (repo E, sha, kind, name) = (None, st1, ev1)"
    using hn by (cases "hot_get E st (repo E, sha, kind, name)") auto
  have "filter is_work ev1 = []" using hot_get_no_work [OF hg] .
  then show ?thesis using sha hg gs by (simp add: try_candidate_def)
qed


lemma try_candidate_cached:
  assumes "blob_sha E f = Inr sha" "hot_consistent st"
    and "warm st (repo E, sha, kind, name) = Some rc"
  shows "\<exists>st' ev. try_candidate E name kind st (f, l) = (Inr (Some rc), st', ev) \<and>
           filter is_extract ev = [] \<and> filter is_git_show ev = []"
proof -
  obtain v st1 ev1 where hg: "hot_get E st (repo E, sha, kind, name) = (v, st1, ev1)"
    by (cases "hot_get E st (repo E, sha, kind, name)") auto
  have v: "v = Some rc" using hot_get_value [OF assms(2) hg] assms(3) by simp
  have ne: "filter is_extract ev1 = []" "filter is_git_show ev1 = []"
    using hot_get_no_extract [OF hg] by simp_all
  show ?thesis
    using assms(1) hg v ne by (simp add: try_candidate_def)
qed

lemma extract_symbol_file:
  "extract_symbol E src f name kind l = Inr (Some rc) \<Longrightarrow> rec_file rc = path_join E (repo E) f"
  by (auto simp: extract_symbol_def extract_macro_def extract_global_def build_rec_def Let_def
           split: if_splits option.splits sum.splits prod.splits)

section \<open>Failures of the external tools\<close>

text \<open>
  C1, as the code has it. If resolving the content hash or fetching the raw bytes of a
  candidate file fails when the loop of lookup reaches that candidate (every candidate
  before it was skipped), lookup does not go on to the next candidate: the error of the
  failed call leaves lookup. The warm store is unchanged, nothing is stored or cleared,
  and the last work done is the failed call, whatever candidates follow.
\<close>

theorem tool_failure_propagates:
  assumes "kind \<in> KINDS"
    and "fst (grep_candidates E name kind) = pre @ (f, l) # post"
    and "lookup_loop E name kind pre st = (Inr None, st1, tr1)"
    and "blob_sha E f = Inl e \<or>
           (\<exists>sha. blob_sha E f = Inr sha \<and>
              fst (hot_get E st1 (repo E, sha, kind, name)) = None \<and> git_show E sha = Inl e)"
  shows "fst (lookup E st name kind) = Inl e \<and>
         warm (fst (snd (lookup E st name kind))) = warm st \<and>
         filter is_write (snd (snd (lookup E st name kind))) = [] \<and>
         filter is_work (snd (snd (lookup E st name kind))) =
           filter is_work (snd (grep_candidates E name kind) @ tr1) @
             EvBlobSha f # (case blob_sha E f of Inl _ \<Rightarrow> [] | Inr sha \<Rightarrow> [EvGitShow sha])"
proof -
  obtain st2 ev2 where t: "try_candidate E name kind st1 (f, l) = (Inl e, st2, ev2)"
    and wk: "filter is_work ev2 =
             EvBlobSha f # (case blob_sha E f of Inl _ \<Rightarrow> [] | Inr sha \<Rightarrow> [EvGitShow sha])"
    using try_candidate_fails [OF assms(4)] by blast
  have tail: "lookup_loop E name kind ((f, l) # post) st1 = (Inl e, st2, ev2)"
    using t by simp
  have loop: "lookup_loop E name kind (pre @ (f, l) # post) st = (Inl e, st2, tr1 @ ev2)"
    using assms(3) tail by (simp add: lookup_loop_append)
  have lk: "lookup E st name kind = (Inl e, st2, snd (grep_candidates E name kind) @ tr1 @ ev2)"
    using loop assms(1,2) by (simp add: lookup_unfold)
  have e: "Inl e \<noteq> Inr (Some rc)" for rc :: symrec by simp
  have w: "warm st2 = warm st"
    using lookup_loop_warm_same [OF loop e] .
  have nw: "filter is_write (tr1 @ ev2) = []"
    using lookup_loop_no_write [OF loop e] .
  show ?thesis
    using lk w nw wk grep_candidates_events [of E name kind] by simp
qed

theorem tool_failure_propagates_witness:
  "''macro'' \<in> KINDS \<and>
   fst (grep_candidates stale_hit_env ''X'' ''macro'') = [] @ (''gone.h'', 0) # [(''a.h'', 0)] \<and>
   blob_sha stale_hit_env ''gone.h'' = Inl CalledProcessError \<and>
   fst (lookup stale_hit_env init_state ''X'' ''macro'') = Inl CalledProcessError \<and>
   warm (fst (snd (lookup stale_hit_env init_state ''X'' ''macro''))) = warm init_state"
proof -
  have k: "''macro'' \<in> KINDS" by (simp add: KINDS_def)
  have g: "fst (grep_candidates stale_hit_env ''X'' ''macro'')
             = [] @ (''gone.h'', 0) # [(''a.h'', 0)]"
    by code_simp
  have p: "lookup_loop stale_hit_env ''X'' ''macro'' [] init_state = (Inr None, init_state, [])"
    by simp
  have b: "blob_sha stale_hit_env ''gone.h'' = Inl CalledProcessError"
    by code_simp
  have b': "blob_sha stale_hit_env ''gone.h'' = Inl CalledProcessError \<or>
           (\<exists>sha. blob_sha stale_hit_env ''gone.h'' = Inr sha \<and>
              fst (hot_get stale_hit_env init_state (repo stale_hit_env, sha, ''macro'', ''X'')) = None \<and>
              git_show stale_hit_env sha = Inl CalledProcessError)"
    using b by simp
  show ?thesis
    using k g b tool_failure_propagates [OF k g p b'] by simp
qed

text \<open>
  The search of \<open>stale_hit_env\<close> answers a path the commit does not have before the
  header that defines \<open>X\<close>: lookup ends with the error of the hash resolution, although
  the loop over the next candidate alone returns the definition.
\<close>

theorem tool_failure_counterexample:
  "fst (lookup stale_hit_env init_state ''X'' ''macro'') = Inl CalledProcessError \<and>
   fst (lookup_loop stale_hit_env ''X'' ''macro'' [(''a.h'', 0)] init_state)
     = Inr (Some \<lparr>rec_code = ''#define X 1'', rec_file = ''/r/a.h'', rec_line = 0\<rparr>)"
  by code_simp

section \<open>Content addressing\<close>




text \<open>
  C10. The cache key omits the path of the candidate. When the candidate that lookup
  meets first has a content hash under which the warm store holds a row, lookup returns
  the stored record, with the file name it was stored with, whereas every record that
  extraction produces from the candidate names the candidate's own path. So where two
  paths have the same content, a lookup whose candidate is one path can return a record
  whose file names the other (in the example: the candidate is \<open>b.h\<close>, the record names
  \<open>/r/a.h\<close>, under which it was first extracted).
\<close>

theorem cache_hit_keeps_stored_path:
  assumes "kind \<in> KINDS"
    and "fst (grep_candidates E name kind) = (f, l) # cs"
    and "blob_sha E f = Inr sha"
    and "hot_consistent st"
    and "warm st (repo E, sha, kind, name) = Some rc"
  shows "fst (lookup E st name kind) = Inr (Some rc) \<and>
         (\<forall>src l' rc'. extract_symbol E src f name kind l' = Inr (Some rc')
             \<longrightarrow> rec_file rc' = path_join E (repo E) f)"
proof -
  obtain sb evb where t: "try_candidate E name kind st (f, l) = (Inr (Some rc), sb, evb)"
    using try_candidate_cached [OF assms(3,4,5)] by blast
  have "fst (lookup E st name kind) = Inr (Some rc)"
    using t assms(1,2) by (simp add: lookup_unfold)
  then show ?thesis using extract_symbol_file by blast
qed

theorem cache_hit_keeps_stored_path_witness:
  "''macro'' \<in> KINDS \<and>
   fst (grep_candidates renamed_env ''X'' ''macro'') = (''b.h'', 0) # [] \<and>
   blob_sha renamed_env ''b.h'' = Inr ''b1'' \<and>
   warm (fst (snd (lookup header_env init_state ''X'' ''macro'')))
        (repo renamed_env, ''b1'', ''macro'', ''X'')
     = Some \<lparr>rec_code = ''#define X 1'', rec_file = ''/r/a.h'', rec_line = 0\<rparr> \<and>
   fst (lookup renamed_env (fst (snd (lookup header_env init_state ''X'' ''macro''))) ''X'' ''macro'')
     = Inr (Some \<lparr>rec_code = ''#define X 1'', rec_file = ''/r/a.h'', rec_line = 0\<rparr>) \<and>
   path_join renamed_env (repo renamed_env) ''b.h'' = ''/r/b.h''"
proof -
  let ?rc = "\<lparr>rec_code = ''#define X 1'', rec_file = ''/r/a.h'', rec_line = 0\<rparr>"
  let ?st = "fst (snd (lookup header_env init_state ''X'' ''macro''))"
  have k: "''macro'' \<in> KINDS" by (simp add: KINDS_def)
  have g: "fst (grep_candidates renamed_env ''X'' ''macro'') = (''b.h'', 0) # []" by code_simp
  have b: "blob_sha renamed_env ''b.h'' = Inr ''b1''" by code_simp
  have h0: "hot_consistent init_state" by (simp add: hot_consistent_def init_state_def)
  have h: "hot_consistent ?st" using lookup_consistent [OF h0] .
  have w: "warm ?st (repo renamed_env, ''b1'', ''macro'', ''X'') = Some ?rc" by code_simp
  have p: "path_join renamed_env (repo renamed_env) ''b.h'' = ''/r/b.h''" by code_simp
  show ?thesis
    using k g b w p cache_hit_keeps_stored_path [OF k g b h w] by simp
qed

section \<open>Facts about the matcher\<close>

lemma run_chars:
  assumes "p \<le> j" "j < p + run s k p"
  shows "j < length s \<and> in_cset k (s ! j)"
proof -
  let ?xs = "drop p s"
  have n: "j - p < length (takeWhile (in_cset k) ?xs)" using assms by (simp add: run_def)
  have "length (takeWhile (in_cset k) ?xs) \<le> length ?xs" by (rule length_takeWhile_le)
  with n have l: "j - p < length ?xs" by simp
  then have jl: "j < length s" using assms(1) by simp
  have "takeWhile (in_cset k) ?xs ! (j - p) \<in> set (takeWhile (in_cset k) ?xs)"
    using n by (rule nth_mem)
  then have "in_cset k (takeWhile (in_cset k) ?xs ! (j - p))" by (rule set_takeWhileD [THEN conjunct2])
  moreover have "takeWhile (in_cset k) ?xs ! (j - p) = ?xs ! (j - p)"
    using n by (rule takeWhile_nth)
  moreover have "?xs ! (j - p) = s ! j" using jl assms(1) by simp
  ultimately show ?thesis using jl by simp
qed

lemma lit_len:
  assumes "take (length w) (drop p s) = w"
  shows "length w \<le> length s - p"
proof -
  have "length (take (length w) (drop p s)) = length w" using assms by simp
  then show ?thesis by simp
qed

lemma lit_chars:
  assumes "take (length w) (drop p s) = w" "p \<le> j" "j < p + length w"
  shows "j < length s \<and> s ! j \<in> set w"
proof -
  have le: "length w \<le> length s - p" using lit_len [OF assms(1)] .
  with assms(2,3) have jl: "j < length s" by simp
  have jw: "j - p < length w" using assms(2,3) by simp
  have "take (length w) (drop p s) ! (j - p) = drop p s ! (j - p)"
    using jw by simp
  also have "\<dots> = s ! j" using jl assms(2) by simp
  finally have "w ! (j - p) = s ! j" unfolding assms(1) .
  moreover have "w ! (j - p) \<in> set w" using jw by simp
  ultimately show ?thesis using jl by simp
qed

lemma rx_match_bounds:
  "(e, c') \<in> set (rx_match r s (p, c)) \<Longrightarrow>
     p \<le> e \<and> (p \<le> length s \<longrightarrow> e \<le> length s) \<and> (\<forall>i. p \<le> i \<and> i < e \<longrightarrow> rx_chars r (s ! i))"
proof (induction r arbitrary: p c e c')
  case Bol
  then show ?case by (auto split: if_splits)
next
  case WordB
  then show ?case by (auto split: if_splits)
next
  case (Cls k)
  then show ?case by (auto split: if_splits simp: less_Suc_eq)
next
  case (Lit w)
  then have t: "take (length w) (drop p s) = w" and e: "e = p + length w"
    by (auto split: if_splits)
  show ?case
  proof (intro conjI allI impI)
    show "p \<le> e" using e by simp
    show "e \<le> length s" if "p \<le> length s"
      using lit_len [OF t] e that by simp
    show "rx_chars (Lit w) (s ! i)" if "p \<le> i \<and> i < e" for i
      using lit_chars [OF t, of i] that e by simp
  qed
next
  case (Star k)
  then obtain n where n: "e = p + n" "n \<le> run s k p" by auto
  show ?case
  proof (intro conjI allI impI)
    show "p \<le> e" using n by simp
    show "e \<le> length s" if "p \<le> length s"
    proof -
      have "run s k p \<le> length (drop p s)" unfolding run_def by (rule length_takeWhile_le)
      with n that show ?thesis by simp
    qed
    show "rx_chars (Star k) (s ! i)" if "p \<le> i \<and> i < e" for i
      using run_chars [of p i s k] that n by simp
  qed
next
  case (Plus k)
  then obtain n where n: "e = p + n" "n \<le> run s k p" by auto
  show ?case
  proof (intro conjI allI impI)
    show "p \<le> e" using n by simp
    show "e \<le> length s" if "p \<le> length s"
    proof -
      have "run s k p \<le> length (drop p s)" unfolding run_def by (rule length_takeWhile_le)
      with n that show ?thesis by simp
    qed
    show "rx_chars (Plus k) (s ! i)" if "p \<le> i \<and> i < e" for i
      using run_chars [of p i s k] that n by simp
  qed
next
  case (Opt r)
  then show ?case by auto
next
  case (Seq a b)
  from Seq.prems obtain m cm where m: "(m, cm) \<in> set (rx_match a s (p, c))"
    and e: "(e, c') \<in> set (rx_match b s (m, cm))" by auto
  have a: "p \<le> m" "p \<le> length s \<longrightarrow> m \<le> length s"
    "\<And>i. p \<le> i \<Longrightarrow> i < m \<Longrightarrow> rx_chars a (s ! i)"
    using Seq.IH(1) [OF m] by auto
  have b: "m \<le> e" "m \<le> length s \<longrightarrow> e \<le> length s"
    "\<And>i. m \<le> i \<Longrightarrow> i < e \<Longrightarrow> rx_chars b (s ! i)"
    using Seq.IH(2) [OF e] by auto
  show ?case
  proof (intro conjI allI impI)
    show "p \<le> e" using a(1) b(1) by simp
    show "e \<le> length s" if "p \<le> length s" using a(2) b(2) that by simp
    show "rx_chars (Seq a b) (s ! i)" if "p \<le> i \<and> i < e" for i
    proof (cases "i < m")
      case True
      with a(3) that show ?thesis by simp
    next
      case False
      with b(3) that show ?thesis by simp
    qed
  qed
next
  case (Grp r)
  from Grp.prems obtain cx where "(e, cx) \<in> set (rx_match r s (p, c))" by auto
  from Grp.IH [OF this] show ?case by simp
qed

lemma first_match_Some:
  "first_match r s ps = Some (st, e, c) \<Longrightarrow> st \<in> set ps \<and> (e, c) \<in> set (rx_match r s (st, None))"
  by (induction ps) (auto split: list.splits)

lemma re_finditer_from_member:
  "(st, e, c) \<in> set (re_finditer_from r s pos) \<Longrightarrow>
     pos \<le> st \<and> st \<le> length s \<and> (e, c) \<in> set (rx_match r s (st, None))"
proof (induction r s pos rule: re_finditer_from.induct)
  case (1 r s pos)
  show ?case
  proof (cases "length s < pos")
    case True
    with "1.prems" show ?thesis by simp
  next
    case False
    show ?thesis
    proof (cases "re_search_from r s pos")
      case None
      with False "1.prems" show ?thesis by simp
    next
      case (Some m)
      obtain st0 e0 c0 where m: "m = (st0, e0, c0)" by (cases m) auto
      from Some m have fm: "first_match r s [pos..<Suc (length s)] = Some (st0, e0, c0)"
        by (simp add: re_search_from_def)
      from first_match_Some [OF fm] have h: "pos \<le> st0" "st0 \<le> length s"
        "(e0, c0) \<in> set (rx_match r s (st0, None))" by auto
      from "1.prems" False Some m
      have "(st, e, c) = (st0, e0, c0) \<or> (st, e, c) \<in> set (re_finditer_from r s (max e0 (Suc pos)))"
        by (subst (asm) re_finditer_from.simps) simp
      then show ?thesis
      proof
        assume "(st, e, c) = (st0, e0, c0)"
        with h show ?thesis by simp
      next
        assume "(st, e, c) \<in> set (re_finditer_from r s (max e0 (Suc pos)))"
        from "1.IH" [OF False Some, of st0 "(e0, c0)" e0 c0] m this show ?thesis
          by auto
      qed
    qed
  qed
qed

lemma find_split:
  "find P xs = Some x \<Longrightarrow> \<exists>ys zs. xs = ys @ x # zs \<and> P x \<and> (\<forall>y \<in> set ys. \<not> P y)"
proof (induction xs)
  case Nil
  then show ?case by simp
next
  case (Cons a xs)
  show ?case
  proof (cases "P a")
    case True
    with Cons.prems have "a = x" by simp
    with True show ?thesis by (intro exI [of _ "[]"] exI [of _ xs]) simp
  next
    case False
    with Cons.prems have "find P xs = Some x" by simp
    from Cons.IH [OF this] obtain ys zs where "xs = ys @ x # zs" "P x" "\<forall>y \<in> set ys. \<not> P y"
      by blast
    with False show ?thesis by (intro exI [of _ "a # ys"] exI [of _ zs]) simp
  qed
qed

lemma extern_word: "x \<in> set ''extern'' \<Longrightarrow> py_isword x"
  by (auto simp: py_isword_def)

lemma rgx_global_match:
  assumes "(e, c) \<in> set (rx_match RGX_GLOBAL s (p, None))" "p \<le> length s"
  shows "at_bol s p \<and> p < e \<and> e \<le> length s \<and> s ! (e - 1) \<in> set ''=;{'' \<and>
         (\<forall>i. p \<le> i \<and> i < e - 1 \<longrightarrow> py_isword (s ! i) \<or> py_isspace (s ! i) \<or> s ! i = CHR ''*'')"
proof -
  define pre where "pre = rx_seq [Bol, Star CSpace, Opt (Seq (Lit ''extern'') (Plus CSpace)),
             Plus (CUnion CWord (CUnion CSpace (COneOf ''*''))), WordB,
             Grp (Plus CWord), WordB, Star CSpace]"
  have split: "RGX_GLOBAL = Seq pre (Cls (COneOf ''=;{''))"
    by (simp add: RGX_GLOBAL_def pre_def)
  have bol: "at_bol s p"
  proof (rule ccontr)
    assume "\<not> at_bol s p"
    then have "rx_match RGX_GLOBAL s (p, None) = []" by (simp add: RGX_GLOBAL_def)
    with assms(1) show False by simp
  qed
  from assms(1) obtain m cm where m: "(m, cm) \<in> set (rx_match pre s (p, None))"
    and l: "(e, c) \<in> set (rx_match (Cls (COneOf ''=;{'')) s (m, cm))"
    unfolding split by auto
  from l have e: "e = Suc m" "m < length s" "s ! m \<in> set ''=;{''"
    by (auto split: if_splits)
  have pm: "p \<le> m" and ch: "\<And>i. p \<le> i \<Longrightarrow> i < m \<Longrightarrow> rx_chars pre (s ! i)"
    using rx_match_bounds [OF m] by auto
  have "py_isword x \<or> py_isspace x \<or> x = CHR ''*''" if "rx_chars pre x" for x
    using that extern_word [of x] unfolding pre_def by auto
  with ch have "py_isword (s ! i) \<or> py_isspace (s ! i) \<or> s ! i = CHR ''*''"
    if "p \<le> i" "i < m" for i using that by blast
  with bol e pm show ?thesis by simp
qed

lemma set_rstrip: "set (rstrip xs) \<subseteq> set xs"
  unfolding rstrip_def using set_dropWhileD [of _ py_isspace "rev xs"] by auto

lemma set_py_slice:
  assumes "x \<in> set (py_slice s a b)" "b \<le> length s"
  shows "\<exists>i. a \<le> i \<and> i < b \<and> x = s ! i"
proof -
  from assms(1) obtain n where n: "n < length (py_slice s a b)" "x = py_slice s a b ! n"
    by (auto simp: in_set_conv_nth)
  then have nb: "n < b - a" "a + n < length s" by (auto simp: py_slice_def)
  then have "py_slice s a b ! n = s ! (a + n)" by (simp add: py_slice_def)
  with n nb show ?thesis by (intro exI [of _ "a + n"]) auto
qed

section \<open>Global variables\<close>

text \<open>
  C7, as the code has it. For every source text, global-variable extraction returns
  nothing exactly when no match of the pattern captures the requested name, and
  otherwise the record of the first match, in the order of the scan, whose captured
  identifier equals the requested name exactly. That match starts at the start of a
  line, ends with one of \<open>=\<close>, \<open>;\<close>, \<open>{\<close>, and everything before that last character is a
  word character, white space or \<open>*\<close> (the optional \<open>extern\<close>, the type and pointer
  tokens, the identifier): brackets are not among them, so the returned code holds no
  \<open>[\<close> and an array declaration such as \<open>int buf[10];\<close> is not matched. The record's
  code is the matched text, trimmed on the right, and its line is the number of
  newline characters before the start of the match.
\<close>

theorem extract_global_first_match:
  "(extract_global E src path name = None \<longleftrightarrow>
      (\<forall>m \<in> set (re_finditer RGX_GLOBAL src). group_name src (snd (snd m)) \<noteq> name)) \<and>
   (\<forall>rc. extract_global E src path name = Some rc \<longrightarrow>
      (\<exists>start fin c ms1 ms2.
         re_finditer RGX_GLOBAL src = ms1 @ (start, fin, c) # ms2 \<and>
         (\<forall>m \<in> set ms1. group_name src (snd (snd m)) \<noteq> name) \<and>
         group_name src c = name \<and>
         at_bol src start \<and> start < fin \<and> fin \<le> length src \<and>
         src ! (fin - 1) \<in> set ''=;{'' \<and>
         (\<forall>i. start \<le> i \<and> i < fin - 1 \<longrightarrow>
            py_isword (src ! i) \<or> py_isspace (src ! i) \<or> src ! i = CHR ''*'') \<and>
         rc = \<lparr>rec_code = rstrip (py_slice src start fin),
               rec_file = path_join E (repo E) path,
               rec_line = count_newlines (take start src)\<rparr> \<and>
         CHR ''['' \<notin> set (rec_code rc)))"
proof (intro conjI allI impI)
  let ?P = "\<lambda>(start, fin, c). group_name src c = name"
  have P: "?P m \<longleftrightarrow> group_name src (snd (snd m)) = name" for m :: "nat \<times> nat \<times> cap"
    by (cases m) auto
  show "extract_global E src path name = None \<longleftrightarrow>
      (\<forall>m \<in> set (re_finditer RGX_GLOBAL src). group_name src (snd (snd m)) \<noteq> name)"
  proof
    assume "extract_global E src path name = None"
    then have "find ?P (re_finditer RGX_GLOBAL src) = None"
      by (auto simp: extract_global_def split: option.splits)
    then have "\<not> (\<exists>x. x \<in> set (re_finditer RGX_GLOBAL src) \<and> ?P x)"
      unfolding find_None_iff .
    then show "\<forall>m \<in> set (re_finditer RGX_GLOBAL src). group_name src (snd (snd m)) \<noteq> name"
      using P by blast
  next
    assume "\<forall>m \<in> set (re_finditer RGX_GLOBAL src). group_name src (snd (snd m)) \<noteq> name"
    then have "find ?P (re_finditer RGX_GLOBAL src) = None"
      unfolding find_None_iff using P by blast
    then show "extract_global E src path name = None"
      by (simp add: extract_global_def)
  qed
next
  fix rc
  let ?P = "\<lambda>(start, fin, c). group_name src c = name"
  assume a: "extract_global E src path name = Some rc"
  then obtain start fin c where f: "find ?P (re_finditer RGX_GLOBAL src) = Some (start, fin, c)"
    and rc: "rc = build_rec E (repo E) path src start fin"
    by (auto simp: extract_global_def split: option.splits)
  from find_split [OF f] obtain ms1 ms2
    where sp: "re_finditer RGX_GLOBAL src = ms1 @ (start, fin, c) # ms2"
      and nm: "group_name src c = name" and before: "\<forall>y \<in> set ms1. \<not> ?P y"
    by auto
  have before': "\<forall>m \<in> set ms1. group_name src (snd (snd m)) \<noteq> name"
    using before by auto
  have "(start, fin, c) \<in> set (re_finditer_from RGX_GLOBAL src 0)"
    using sp by (simp add: re_finditer_def)
  from re_finditer_from_member [OF this]
  have st: "start \<le> length src" and m: "(fin, c) \<in> set (rx_match RGX_GLOBAL src (start, None))"
    by auto
  from rgx_global_match [OF m st]
  have sh: "at_bol src start" "start < fin" "fin \<le> length src" "src ! (fin - 1) \<in> set ''=;{''"
    "\<And>i. start \<le> i \<Longrightarrow> i < fin - 1 \<Longrightarrow>
       py_isword (src ! i) \<or> py_isspace (src ! i) \<or> src ! i = CHR ''*''"
    by auto
  have nb: "CHR ''['' \<notin> set (rec_code rc)"
  proof
    assume "CHR ''['' \<in> set (rec_code rc)"
    then have "CHR ''['' \<in> set (py_slice src start fin)"
      using set_rstrip rc by (auto simp: build_rec_def)
    from set_py_slice [OF this sh(3)] obtain i where i: "start \<le> i" "i < fin" "src ! i = CHR ''[''"
      by auto
    show False
    proof (cases "i < fin - 1")
      case True
      from sh(5) [OF i(1) True] i(3) show False
        by (simp add: py_isword_def py_isspace_def)
    next
      case False
      with i have "i = fin - 1" by simp
      with sh(4) i(3) show False by simp
    qed
  qed
  show "\<exists>start fin c ms1 ms2.
         re_finditer RGX_GLOBAL src = ms1 @ (start, fin, c) # ms2 \<and>
         (\<forall>m \<in> set ms1. group_name src (snd (snd m)) \<noteq> name) \<and>
         group_name src c = name \<and>
         at_bol src start \<and> start < fin \<and> fin \<le> length src \<and>
         src ! (fin - 1) \<in> set ''=;{'' \<and>
         (\<forall>i. start \<le> i \<and> i < fin - 1 \<longrightarrow>
            py_isword (src ! i) \<or> py_isspace (src ! i) \<or> src ! i = CHR ''*'') \<and>
         rc = \<lparr>rec_code = rstrip (py_slice src start fin),
               rec_file = path_join E (repo E) path,
               rec_line = count_newlines (take start src)\<rparr> \<and>
         CHR ''['' \<notin> set (rec_code rc)"
    using sp before' nm sh nb rc
    by (rule_tac x = start in exI, rule_tac x = fin in exI, rule_tac x = c in exI,
        rule_tac x = ms1 in exI, rule_tac x = ms2 in exI)
       (simp add: build_rec_def)
qed

theorem extract_global_first_match_witness:
  "extract_global bare_env ''int buf[10];\<newline>int x = 1;'' ''a.c'' ''x''
     = Some \<lparr>rec_code = ''int x ='', rec_file = ''/r/a.c'', rec_line = 1\<rparr> \<and>
   re_finditer RGX_GLOBAL ''int buf[10];\<newline>int x = 1;'' = [(13, 20, Some (17, 18))] \<and>
   (\<exists>start fin c ms1 ms2.
      re_finditer RGX_GLOBAL ''int buf[10];\<newline>int x = 1;'' = ms1 @ (start, fin, c) # ms2 \<and>
      group_name ''int buf[10];\<newline>int x = 1;'' c = ''x'' \<and>
      at_bol ''int buf[10];\<newline>int x = 1;'' start \<and>
      ''int buf[10];\<newline>int x = 1;'' ! (fin - 1) \<in> set ''=;{'') \<and>
   extract_global bare_env ''int buf[10];'' ''a.c'' ''x'' = None"
proof -
  let ?src = "''int buf[10];\<newline>int x = 1;''"
  let ?rc = "\<lparr>rec_code = ''int x ='', rec_file = ''/r/a.c'', rec_line = 1\<rparr>"
  have v: "extract_global bare_env ?src ''a.c'' ''x'' = Some ?rc" by code_simp
  have f: "re_finditer RGX_GLOBAL ?src = [(13, 20, Some (17, 18))]" by code_simp
  have n: "\<forall>m \<in> set (re_finditer RGX_GLOBAL ''int buf[10];''). group_name ''int buf[10];'' (snd (snd m)) \<noteq> ''x''"
    by code_simp
  from extract_global_first_match [of bare_env ?src "''a.c''" "''x''"] v
  have "\<exists>start fin c ms1 ms2.
      re_finditer RGX_GLOBAL ?src = ms1 @ (start, fin, c) # ms2 \<and>
      group_name ?src c = ''x'' \<and> at_bol ?src start \<and> ?src ! (fin - 1) \<in> set ''=;{''"
    by blast
  moreover have "extract_global bare_env ''int buf[10];'' ''a.c'' ''x'' = None"
    using extract_global_first_match [of bare_env "''int buf[10];''" "''a.c''" "''x''"] n by blast
  ultimately show ?thesis using v f by blast
qed

text \<open>The array declaration \<open>int buf[10];\<close> is not found under the name \<open>buf\<close>.\<close>

theorem extract_global_array_counterexample:
  "extract_global bare_env ''int buf[10];'' ''a.c'' ''buf'' = None"
  by code_simp

section \<open>Macros\<close>

text \<open>
  C6, at a text where the code departs from it. The text is \<open>int y;\<close>, an empty line,
  and \<open>#define X 1\<close> on line 2 (from 0, at offset 8). The white space that the pattern
  allows after the start of a line takes in the newline of the empty line, so the match
  starts on line 1: the record's line is 1, not 2, and its code starts with that newline
  (only the right end is trimmed), so it is not the one line of the definition.
\<close>

theorem macro_after_blank_line_wrong_line:
  "extract_macro bare_env ''int y;\<newline>\<newline>#define X 1'' ''a.h'' ''X''
     = Some \<lparr>rec_code = ''\<newline>#define X 1'', rec_file = ''/r/a.h'', rec_line = 1\<rparr> \<and>
   count_newlines (take 8 ''int y;\<newline>\<newline>#define X 1'') = 2 \<and>
   drop 8 ''int y;\<newline>\<newline>#define X 1'' = ''#define X 1''"
  by code_simp

section \<open>The fallback search and the line hint 0\<close>

text \<open>
  C2, at a repository where the code departs from it. \<open>src/add.c\<close> defines the function
  \<open>add\<close> with its return type on a line of its own, so the strict search has no hit and
  the search for the bare name answers the file, which becomes the one candidate, with
  line hint 0. The file is read and parsed, its tree holds the definition of \<open>add\<close>,
  and lookup returns NOT_FOUND.
\<close>

theorem fallback_misses_definition:
  "git_grep_nP fallback_env ''function'' ''add'' = [] \<and>
   grep_candidates fallback_env ''add'' ''function''
     = ([(''src/add.c'', 0)], [EvGrepStrict ''function'' ''add'', EvGrepFallback ''add'']) \<and>
   git_show fallback_env ''b2'' = Inr add_src \<and>
   c_parser fallback_env add_src = add_tree \<and>
   list_ex (\<lambda>n. is_function_of n ''add'') (children add_tree) \<and>
   fst (lookup fallback_env init_state ''add'' ''function'') = Inr None"
  by code_simp

text \<open>
  C3, where the code departs from it. With a root that starts on line 0, the node
  found for the line hint 0 is the root itself, the largest node that starts on that
  line and not the smallest; the walk then only climbs, and the root has no parent, so
  for a root of type \<open>translation_unit\<close> every finder returns nothing for the hint 0,
  whatever the tree holds. In \<open>add_tree\<close> the definition of \<open>add\<close> starts on line 0 and
  is not found from the hint 0; from the hint 1, the line of its declarator, it is.
\<close>

theorem hint_zero_seeds_root_only:
  "node_at_line (Node t 0 sb eb tx cs) 0 = Some (Node t 0 sb eb tx cs, []) \<and>
   find_function (Node ''translation_unit'' 0 sb eb tx cs) ident 0 = None \<and>
   find_struct (Node ''translation_unit'' 0 sb eb tx cs) ident 0 = None \<and>
   find_enum (Node ''translation_unit'' 0 sb eb tx cs) ident 0 = None \<and>
   find_typedef E (Node ''translation_unit'' 0 sb eb tx cs) ident 0 = Inr None \<and>
   list_ex (\<lambda>n. is_function_of n ''add'' \<and> start_row n = 0) (children add_tree) \<and>
   node_at_line add_tree 0 = Some (add_tree, []) \<and>
   find_function add_tree ''add'' 0 = None \<and>
   find_function add_tree ''add'' 1 = Some (add_fn, [add_tree])"
proof -
  have g: "node_at_line (Node t 0 sb eb tx cs) 0 = Some (Node t 0 sb eb tx cs, [])" for t
    by (simp add: node_at_line_def)
  have f: "find_function (Node ''translation_unit'' 0 sb eb tx cs) ident 0 = None"
    by (simp add: find_function_def g is_function_of_def)
  have s: "find_struct (Node ''translation_unit'' 0 sb eb tx cs) ident 0 = None"
    by (simp add: find_struct_def g is_struct_of_def)
  have e: "find_enum (Node ''translation_unit'' 0 sb eb tx cs) ident 0 = None"
    by (simp add: find_enum_def g is_enum_of_def)
  have d: "find_typedef E (Node ''translation_unit'' 0 sb eb tx cs) ident 0 = Inr None"
    by (simp add: find_typedef_def g is_typedef_of_def)
  have c: "list_ex (\<lambda>n. is_function_of n ''add'' \<and> start_row n = 0) (children add_tree) \<and>
   node_at_line add_tree 0 = Some (add_tree, []) \<and>
   find_function add_tree ''add'' 0 = None \<and>
   find_function add_tree ''add'' 1 = Some (add_fn, [add_tree])"
    by code_simp
  show ?thesis
    using g [of t] f s e d c by blast
qed

end
